theory Spec2Isabelle
  imports Main "HOL-Library.Word"
begin

unbundle bit_operations_syntax

section \<open>Machine types\<close>

text \<open>
  The module is compiled for a 32-bit WebAssembly target: \<open>int\<close> is a 32-bit and
  \<open>long long\<close> a 64-bit two's complement integer. Both are words here; \<open>sint\<close> reads
  the signed value, \<open>scast\<close> is the sign-extending conversion \<open>(long long) x\<close> of an
  \<open>int\<close>, and \<open>ucast\<close> from 64 to 32 bits is the truncating conversion back.
\<close>

type_synonym c_int = "32 word"
type_synonym c_long_long = "64 word"

section \<open>Item codec\<close>

text \<open>\<^verbatim>\<open>long long get_item_size(long long item) { return item >> 32; }\<close>
  The shift of a signed operand is the arithmetic one.\<close>

definition get_item_size :: "c_long_long \<Rightarrow> c_long_long" where
  "get_item_size item = signed_drop_bit 32 item"

text \<open>\<^verbatim>\<open>long long get_item_offset(long long item) { return item & 0xffffffff; }\<close>
  The literal has type \<open>unsigned int\<close> and converts to the \<open>long long\<close> 4294967295.\<close>

definition get_item_offset :: "c_long_long \<Rightarrow> c_long_long" where
  "get_item_offset item = item AND 0xffffffff"

text \<open>\<^verbatim>\<open>long long make_item(int size, int offset) {
  return ((long long) size << 32) | (long long) offset; }\<close>\<close>

definition make_item :: "c_int \<Rightarrow> c_int \<Rightarrow> c_long_long" where
  "make_item sz offset = push_bit 32 (scast sz :: c_long_long) OR (scast offset :: c_long_long)"

section \<open>Arrays\<close>

text \<open>
  A \<^verbatim>\<open>long long*\<close> argument is the caller's buffer, a list here. The C code indexes it
  with an \<open>int\<close> and checks nothing; an index outside the buffer is undefined behaviour
  (an out-of-bounds access), which the model reports as the fault \<open>OutOfBounds\<close>
  instead of reading or writing some unspecified element.
\<close>

datatype fault = OutOfBounds

definition array_read :: "'a list \<Rightarrow> c_int \<Rightarrow> 'a option" where
  "array_read xs idx =
     (if 0 \<le>s idx \<and> nat (sint idx) < length xs then Some (xs ! nat (sint idx)) else None)"

definition array_write :: "'a list \<Rightarrow> c_int \<Rightarrow> 'a \<Rightarrow> 'a list option" where
  "array_write xs idx v =
     (if 0 \<le>s idx \<and> nat (sint idx) < length xs then Some (xs[nat (sint idx) := v]) else None)"

section \<open>Window membership\<close>

text \<open>\<^verbatim>\<open>int is_item_in_window(long long item, long long cursor_offset,
                      long long cursor_size, long long window_size) {
  return (
    get_item_offset(item) <= cursor_offset + cursor_size + window_size &&
    get_item_offset(item) + get_item_size(item) >= cursor_offset - window_size
  );
}\<close>
  The \<open>int\<close> result of \<open>&&\<close> is 1 or 0; it is only ever used as a truth value and is
  a \<open>bool\<close> here. The arithmetic is that of \<open>long long\<close>, the comparisons are signed.\<close>

definition is_item_in_window ::
  "c_long_long \<Rightarrow> c_long_long \<Rightarrow> c_long_long \<Rightarrow> c_long_long \<Rightarrow> bool" where
  "is_item_in_window item cursor_offset cursor_size window_size \<longleftrightarrow>
     get_item_offset item \<le>s cursor_offset + cursor_size + window_size \<and>
     cursor_offset - window_size \<le>s get_item_offset item + get_item_size item"

section \<open>Window query\<close>

text \<open>\<^verbatim>\<open>int get_item_indices_in_window(long long* items, long long* result,
    int items_count, int cursor_offset, int cursor_size, int window_size) {
  int result_count = 0;
  for (int i = 0; i < items_count; ++i) {
    if (is_item_in_window(items[i], cursor_offset, cursor_size, window_size)) {
      result[result_count++] = i;
    }
  }
  return result_count;
}\<close>
  The loop state is the counter \<open>i\<close>, the output buffer and \<open>result_count\<close>. The input
  and the output buffer are two lists, that is, the caller passes distinct buffers. One
  round of the loop (test, body, increment) is \<open>scan_step\<close>; the three \<open>int\<close> cursor
  arguments are converted to \<open>long long\<close> at the call of \<open>is_item_in_window\<close>, and \<open>i\<close>
  is converted to \<open>long long\<close> when it is stored.\<close>

record scan_state =
  scan_i :: c_int
  scan_result :: "c_long_long list"
  scan_result_count :: c_int

datatype scan_outcome =
    Continue scan_state
  | Return "c_long_long list" c_int
  | Fault

definition scan_step ::
  "c_long_long list \<Rightarrow> c_int \<Rightarrow> c_int \<Rightarrow> c_int \<Rightarrow> c_int \<Rightarrow> scan_state \<Rightarrow> scan_outcome" where
  "scan_step items items_count cursor_offset cursor_size window_size st =
     (if scan_i st <s items_count then
        (case array_read items (scan_i st) of
           None \<Rightarrow> Fault
         | Some item \<Rightarrow>
             if is_item_in_window item (scast cursor_offset) (scast cursor_size) (scast window_size)
             then
               (case array_write (scan_result st) (scan_result_count st) (scast (scan_i st)) of
                  None \<Rightarrow> Fault
                | Some r \<Rightarrow>
                    Continue \<lparr>scan_i = scan_i st + 1, scan_result = r,
                              scan_result_count = scan_result_count st + 1\<rparr>)
             else Continue (st\<lparr>scan_i := scan_i st + 1\<rparr>))
      else Return (scan_result st) (scan_result_count st))"

function scan_loop ::
  "c_long_long list \<Rightarrow> c_int \<Rightarrow> c_int \<Rightarrow> c_int \<Rightarrow> c_int \<Rightarrow> scan_state
     \<Rightarrow> fault + (c_long_long list \<times> c_int)" where
  "scan_loop items items_count cursor_offset cursor_size window_size st =
     (case scan_step items items_count cursor_offset cursor_size window_size st of
        Continue st' \<Rightarrow> scan_loop items items_count cursor_offset cursor_size window_size st'
      | Return r c \<Rightarrow> Inr (r, c)
      | Fault \<Rightarrow> Inl OutOfBounds)"
  by pat_completeness auto
termination
proof (relation "measure (\<lambda>(items, items_count, cursor_offset, cursor_size, window_size, st).
                    nat (sint items_count - sint (scan_i st)))")
  show "wf (measure (\<lambda>(items, items_count, cursor_offset, cursor_size, window_size, st).
                    nat (sint items_count - sint (scan_i st))))"
    by simp
next
  fix items :: "c_long_long list" and items_count cursor_offset cursor_size window_size :: c_int
    and st st' :: scan_state
  assume step: "scan_step items items_count cursor_offset cursor_size window_size st = Continue st'"
  then have less: "sint (scan_i st) < sint items_count" and next_i: "scan_i st' = scan_i st + 1"
    by (auto simp add: scan_step_def word_sless_alt split: if_splits option.splits)
  have "sint items_count < 2 ^ 31"
    using sint_lt [of items_count] by simp
  with less have "sint (scan_i st) + 1 < 2 ^ 31"
    by simp
  moreover have "- (2 ^ 31) \<le> sint (scan_i st) + 1"
    using sint_ge [of "scan_i st"] by simp
  ultimately have "sint (scan_i st + 1) = sint (scan_i st) + 1"
    by (simp add: sint_word_add signed_take_bit_int_eq_self)
  with less next_i
  show "((items, items_count, cursor_offset, cursor_size, window_size, st'),
         (items, items_count, cursor_offset, cursor_size, window_size, st))
        \<in> measure (\<lambda>(items, items_count, cursor_offset, cursor_size, window_size, st).
                    nat (sint items_count - sint (scan_i st)))"
    by simp
qed

definition get_item_indices_in_window ::
  "c_long_long list \<Rightarrow> c_long_long list \<Rightarrow> c_int \<Rightarrow> c_int \<Rightarrow> c_int \<Rightarrow> c_int
     \<Rightarrow> fault + (c_long_long list \<times> c_int)" where
  "get_item_indices_in_window items result items_count cursor_offset cursor_size window_size =
     scan_loop items items_count cursor_offset cursor_size window_size
       \<lparr>scan_i = 0, scan_result = result, scan_result_count = 0\<rparr>"

text \<open>
  The same loop with a budget of rounds: \<open>scan_run k\<close> gives up (\<open>None\<close>) when the loop
  wants to go round more than \<open>k\<close> times, and otherwise ends as \<open>scan_loop\<close> does.
\<close>

fun scan_run ::
  "nat \<Rightarrow> c_long_long list \<Rightarrow> c_int \<Rightarrow> c_int \<Rightarrow> c_int \<Rightarrow> c_int \<Rightarrow> scan_state
     \<Rightarrow> (fault + (c_long_long list \<times> c_int)) option" where
  "scan_run 0 items items_count cursor_offset cursor_size window_size st =
     (case scan_step items items_count cursor_offset cursor_size window_size st of
        Continue st' \<Rightarrow> None
      | Return r c \<Rightarrow> Some (Inr (r, c))
      | Fault \<Rightarrow> Some (Inl OutOfBounds))"
| "scan_run (Suc k) items items_count cursor_offset cursor_size window_size st =
     (case scan_step items items_count cursor_offset cursor_size window_size st of
        Continue st' \<Rightarrow> scan_run k items items_count cursor_offset cursor_size window_size st'
      | Return r c \<Rightarrow> Some (Inr (r, c))
      | Fault \<Rightarrow> Some (Inl OutOfBounds))"

section \<open>Padding\<close>

text \<open>\<^verbatim>\<open>int get_top_padding(long long* items, int first_item_index) {
  return get_item_offset(items[first_item_index]);
}\<close>
  The \<open>long long\<close> offset is converted to the \<open>int\<close> result, which keeps its low 32 bits.\<close>

definition get_top_padding :: "c_long_long list \<Rightarrow> c_int \<Rightarrow> fault + c_int" where
  "get_top_padding items first_item_index =
     (case array_read items first_item_index of
        None \<Rightarrow> Inl OutOfBounds
      | Some item \<Rightarrow> Inr (ucast (get_item_offset item)))"

text \<open>\<^verbatim>\<open>int get_bottom_padding(long long* items, int total_items, int last_item_index) {
  long long last_item = items[total_items - 1];
  long long last_item_in_window = items[last_item_index];
  return (
    get_item_offset(last_item) +
    get_item_size(last_item) -
    get_item_offset(last_item_in_window) -
    get_item_size(last_item_in_window)
  );
}\<close>\<close>

definition get_bottom_padding :: "c_long_long list \<Rightarrow> c_int \<Rightarrow> c_int \<Rightarrow> fault + c_int" where
  "get_bottom_padding items total_items last_item_index =
     (case array_read items (total_items - 1) of
        None \<Rightarrow> Inl OutOfBounds
      | Some last_item \<Rightarrow>
          (case array_read items last_item_index of
             None \<Rightarrow> Inl OutOfBounds
           | Some last_item_in_window \<Rightarrow>
               Inr (ucast (get_item_offset last_item +
                           get_item_size last_item -
                           get_item_offset last_item_in_window -
                           get_item_size last_item_in_window))))"

section \<open>Specification-level notions\<close>

text \<open>
  The packing formula as the specification words it: the size shifted into the high
  half, the offset masked to its low 32 bits.
\<close>

definition make_item_spec :: "c_int \<Rightarrow> c_int \<Rightarrow> c_long_long" where
  "make_item_spec sz offset =
     push_bit 32 (scast sz :: c_long_long) OR ((scast offset :: c_long_long) AND 0xffffffff)"

text \<open>The values a \<open>long long\<close> can hold.\<close>

definition ll_range :: "int \<Rightarrow> bool" where
  "ll_range v \<longleftrightarrow> - (2 ^ 63) \<le> v \<and> v < 2 ^ 63"

text \<open>
  The indices below \<open>n\<close> whose item passes the membership test for the given \<open>int\<close>
  cursor arguments, in ascending order: what a query of the first \<open>n\<close> items is to
  return.
\<close>

definition window_indices ::
  "c_long_long list \<Rightarrow> nat \<Rightarrow> c_int \<Rightarrow> c_int \<Rightarrow> c_int \<Rightarrow> nat list" where
  "window_indices items n cursor_offset cursor_size window_size =
     filter (\<lambda>k. is_item_in_window (items ! k)
                   (scast cursor_offset) (scast cursor_size) (scast window_size)) [0..<n]"

text \<open>
  What the caller reads back from a finished query: the first \<open>result_count\<close> entries
  of the output buffer, as numbers.
\<close>

definition returned_indices :: "c_long_long list \<times> c_int \<Rightarrow> int list" where
  "returned_indices out = map sint (take (nat (sint (snd out))) (fst out))"

text \<open>
  Monotonic layouts of the first \<open>n\<close> items: the decoded offsets, respectively the
  decoded ends \<open>offset + size\<close>, do not decrease with the index.
\<close>

definition offsets_nondecreasing :: "c_long_long list \<Rightarrow> nat \<Rightarrow> bool" where
  "offsets_nondecreasing items n \<longleftrightarrow>
     sorted (map (\<lambda>k. sint (get_item_offset (items ! k))) [0..<n])"

definition ends_nondecreasing :: "c_long_long list \<Rightarrow> nat \<Rightarrow> bool" where
  "ends_nondecreasing items n \<longleftrightarrow>
     sorted (map (\<lambda>k. sint (get_item_offset (items ! k)) + sint (get_item_size (items ! k)))
               [0..<n])"

text \<open>The values an \<open>int\<close> can hold.\<close>

definition int_range :: "int \<Rightarrow> bool" where
  "int_range v \<longleftrightarrow> - (2 ^ 31) \<le> v \<and> v < 2 ^ 31"

text \<open>
  The bottom padding as the specification words it, over the integers: the end of the
  final item \<open>items[total_items - 1]\<close> minus the end of the last visible item
  \<open>items[last_visible_index]\<close>, an end being the decoded offset plus the decoded size.
\<close>

definition bottom_padding_spec :: "c_long_long list \<Rightarrow> nat \<Rightarrow> nat \<Rightarrow> int" where
  "bottom_padding_spec items total_items last_visible_index =
     (sint (get_item_offset (items ! (total_items - 1))) +
      sint (get_item_size (items ! (total_items - 1)))) -
     (sint (get_item_offset (items ! last_visible_index)) +
      sint (get_item_size (items ! last_visible_index)))"

section \<open>Bits of the codec\<close>

lemma neg_iff_bit31: "(w :: c_int) <s 0 \<longleftrightarrow> bit w 31"
  using bit_last_iff [of w] by (simp add: word_sless_alt)

lemma nonneg_iff_bit31: "0 \<le>s (w :: c_int) \<longleftrightarrow> \<not> bit w 31"
  using bit_last_iff [of w] by (simp add: word_sle_eq not_less)

lemma bit_scast_int:
  "bit (scast (w :: c_int) :: c_long_long) n \<longleftrightarrow> n < 64 \<and> bit w (if n < 32 then n else 31)"
proof (cases "n < 32")
  case True
  then have "min 31 n = n \<or> n = 31"
    by (auto simp: min_def)
  with True show ?thesis
    by (auto simp add: bit_simps)
next
  case False
  then have "min 31 n = 31"
    by simp
  with False show ?thesis
    by (simp add: bit_simps)
qed

lemma get_item_offset_take_bit: "get_item_offset item = take_bit 32 item"
  by (simp add: get_item_offset_def take_bit_eq_mask mask_eq_exp_minus_1)

lemma bit_get_item_offset: "bit (get_item_offset item) n \<longleftrightarrow> n < 32 \<and> bit item n"
  by (simp add: get_item_offset_take_bit bit_take_bit_iff)

lemma bit_get_item_size:
  "bit (get_item_size item) n \<longleftrightarrow> n < 64 \<and> bit item (if n < 32 then 32 + n else 63)"
proof (cases "n < 64")
  case True
  then have "(64 - 32 \<le> n \<and> n < 64) = (\<not> n < 32)"
    by arith
  with True show ?thesis
    by (simp only: get_item_size_def bit_signed_drop_bit_iff len_bit0 len_num1) simp
next
  case False
  then show ?thesis
    by (auto dest: bit_imp_le_length)
qed

lemma bit_make_item:
  "bit (make_item sz offset) n \<longleftrightarrow>
     n < 64 \<and> (if n < 32 then bit offset n else bit sz (n - 32) \<or> bit offset 31)"
proof -
  have "n < 64 \<Longrightarrow> \<not> n < 32 \<Longrightarrow> n - 32 < 32"
    by arith
  then show ?thesis
    by (auto simp add: make_item_def bit_simps bit_scast_int dest: bit_imp_le_length)
qed

lemma bit_make_item_spec:
  "bit (make_item_spec sz offset) n \<longleftrightarrow>
     n < 64 \<and> (if n < 32 then bit offset n else bit sz (n - 32))"
proof -
  have low: "(scast offset :: c_long_long) AND 0xffffffff = take_bit 32 (scast offset)"
    by (simp add: take_bit_eq_mask mask_eq_exp_minus_1)
  have "n < 64 \<Longrightarrow> \<not> n < 32 \<Longrightarrow> n - 32 < 32"
    by arith
  then show ?thesis
    unfolding make_item_spec_def low
    by (auto simp add: bit_simps bit_scast_int dest: bit_imp_le_length)
qed

lemma get_item_offset_ucast: "get_item_offset item = ucast (ucast item :: c_int)"
  by (rule bit_word_eqI) (auto simp add: bit_get_item_offset bit_simps)

lemma get_item_size_scast: "get_item_size item = scast (ucast (drop_bit 32 item) :: c_int)"
  by (rule bit_word_eqI) (auto simp add: bit_get_item_size bit_scast_int bit_simps)

lemma get_item_size_make_item_neg: "offset <s 0 \<Longrightarrow> get_item_size (make_item sz offset) = - 1"
  unfolding neg_iff_bit31
  by (rule bit_word_eqI) (auto simp add: bit_get_item_size bit_make_item)

lemma get_item_size_make_item_nonneg:
  "0 \<le>s offset \<Longrightarrow> get_item_size (make_item sz offset) = scast sz"
  unfolding nonneg_iff_bit31
  by (rule bit_word_eqI) (auto simp add: bit_get_item_size bit_make_item bit_scast_int)

lemma get_item_offset_make_item: "get_item_offset (make_item sz offset) = ucast offset"
  by (rule bit_word_eqI)
    (auto simp add: bit_get_item_offset bit_make_item bit_simps dest: bit_imp_le_length)

lemma high_half_make_item:
  "drop_bit 32 (make_item sz offset) = (if offset <s 0 then mask 32 else ucast sz)"
  unfolding neg_iff_bit31
  by (rule bit_word_eqI) (auto simp add: bit_make_item bit_simps dest: bit_imp_le_length)

section \<open>Values of the codec\<close>

lemma sint_get_item_size: "sint (get_item_size item) = sint item div 2 ^ 32"
  by (simp add: get_item_size_def sint_signed_drop_bit_eq drop_bit_eq_div)

lemma uint_get_item_offset: "uint (get_item_offset item) = uint item mod 2 ^ 32"
  by (simp only: get_item_offset_take_bit unsigned_take_bit_eq) (simp only: take_bit_eq_mod)

lemma sint_get_item_offset: "sint (get_item_offset item) = uint item mod 2 ^ 32"
proof -
  have "uint (get_item_offset item) < 2 ^ 63"
    unfolding uint_get_item_offset by (rule less_trans [of _ "2 ^ 32"]) simp_all
  moreover have "- (2 ^ 63) \<le> uint (get_item_offset item)"
    by (rule order_trans [of _ 0]) simp_all
  ultimately have "sint (get_item_offset item) = uint (get_item_offset item)"
    by (simp only: sint_uint signed_take_bit_int_eq_self len_bit0 len_num1)
      (simp add: signed_take_bit_int_eq_self)
  then show ?thesis
    by (simp add: uint_get_item_offset)
qed

lemma sint_get_item_offset_bounds:
  "0 \<le> sint (get_item_offset item)" "sint (get_item_offset item) < 2 ^ 32"
  unfolding sint_get_item_offset by simp_all

lemma sint_get_item_size_bounds:
  "- (2 ^ 31) \<le> sint (get_item_size item)" "sint (get_item_size item) < 2 ^ 31"
proof -
  have "- (2 ^ 63) \<le> sint item" "sint item < 2 ^ 63"
    using sint_ge [of item] sint_lt [of item] by simp_all
  then show "- (2 ^ 31) \<le> sint (get_item_size item)" "sint (get_item_size item) < 2 ^ 31"
    unfolding sint_get_item_size by simp_all
qed

lemma uint_ucast_int: "uint (ucast (w :: c_int) :: c_long_long) = uint w"
  by (simp add: uint_up_ucast is_up)

lemma uint_neg_int: "(w :: c_int) <s 0 \<Longrightarrow> uint w = sint w + 2 ^ 32"
proof -
  assume "w <s 0"
  then have neg: "sint w < 0"
    by (simp add: word_sless_alt)
  have "uint w = take_bit 32 (sint w)"
    by (simp add: uint_sint)
  also have "\<dots> = sint w mod 2 ^ 32"
    by (simp only: take_bit_eq_mod)
  also have "\<dots> = sint w + 2 ^ 32"
  proof -
    have "- (2 ^ 31) \<le> sint w"
      using sint_ge [of w] by simp
    with neg have "(sint w + 2 ^ 32) mod 2 ^ 32 = sint w + 2 ^ 32"
      by (intro mod_pos_pos_trivial) simp_all
    then show ?thesis
      by (simp only: mod_add_self2)
  qed
  finally show ?thesis .
qed

lemma uint_nonneg_int: "0 \<le>s (w :: c_int) \<Longrightarrow> uint w = sint w"
proof -
  assume "0 \<le>s w"
  then have nonneg: "0 \<le> sint w"
    by (simp add: word_sle_eq)
  have "uint w = take_bit 32 (sint w)"
    by (simp add: uint_sint)
  also have "\<dots> = sint w mod 2 ^ 32"
    by (simp only: take_bit_eq_mod)
  also have "\<dots> = sint w"
  proof -
    have "sint w < 2 ^ 31"
      using sint_lt [of w] by simp
    with nonneg show ?thesis
      by (intro mod_pos_pos_trivial) simp_all
  qed
  finally show ?thesis .
qed

lemma sint_scast_int: "sint (scast (w :: c_int) :: c_long_long) = sint w"
  by (simp add: sint_up_scast is_up)

section \<open>The codec: packing and decoding\<close>

text \<open>
  Claim C3, as stated, says that \<open>make_item\<close> is the masked formula \<open>make_item_spec\<close>
  for all arguments. At size 5 and offset -1 the two differ: the sign extension of the
  offset fills the high half, so the packed value is -1 and its size field is -1, where
  the formula gives \<open>0x5ffffffff\<close> with size field 5.
\<close>

theorem make_item_spec_counterexample:
  "make_item 5 (- 1) \<noteq> make_item_spec 5 (- 1) \<and> make_item 5 (- 1) = - 1 \<and> make_item_spec 5 (- 1) = 0x5ffffffff \<and>
   get_item_size (make_item 5 (- 1)) = - 1 \<and> get_item_size (make_item_spec 5 (- 1)) = 5"
  by (simp add: make_item_def make_item_spec_def get_item_size_def)

text \<open>
  Claim C3, amended: for every size and every offset that is not negative, \<open>make_item\<close>
  equals \<open>(size << 32) | (offset & 0xFFFFFFFF)\<close> and the high 32 bits hold the size; for
  every offset the low 32 bits hold the offset's bit pattern; and for a negative offset
  the packed value is the formula's value for size -1, whatever the size was.
\<close>

theorem make_item_packing:
  "(0 \<le>s offset \<longrightarrow> make_item sz offset = make_item_spec sz offset) \<and>
   (0 \<le>s offset \<longrightarrow> drop_bit 32 (make_item sz offset) = ucast sz) \<and>
   take_bit 32 (make_item sz offset) = ucast offset \<and>
   (offset <s 0 \<longrightarrow> make_item sz offset = make_item_spec (- 1) offset)"
proof (intro conjI impI)
  assume "0 \<le>s offset"
  then show "make_item sz offset = make_item_spec sz offset"
    unfolding nonneg_iff_bit31
    by - (rule bit_word_eqI, simp add: bit_make_item bit_make_item_spec)
next
  assume "0 \<le>s offset"
  then have "\<not> offset <s 0"
    by (simp add: word_sle_eq word_sless_alt)
  then show "drop_bit 32 (make_item sz offset) = ucast sz"
    by (simp add: high_half_make_item)
next
  show "take_bit 32 (make_item sz offset) = ucast offset"
    using get_item_offset_make_item [of sz offset] by (simp only: get_item_offset_take_bit)
next
  assume "offset <s 0"
  then show "make_item sz offset = make_item_spec (- 1) offset"
    unfolding neg_iff_bit31
    by - (rule bit_word_eqI, auto simp add: bit_make_item bit_make_item_spec)
qed

theorem make_item_packing_witness:
  "0 \<le>s (20 :: c_int) \<and> make_item 10 20 = make_item_spec 10 20 \<and> make_item 10 20 = 0xa00000014 \<and>
   drop_bit 32 (make_item 10 20) = 10 \<and> take_bit 32 (make_item 10 20) = 20 \<and>
   (- 3 :: c_int) <s 0 \<and> make_item 10 (- 3) = make_item_spec (- 1) (- 3)"
  using make_item_packing [of 20 10] make_item_packing [of "- 3" 10]
  by (simp add: make_item_def word_sle_eq word_sless_alt)

text \<open>
  Claim C5: for every size and every offset that is not negative, decoding an encoded
  item gives back the size (negative sizes included) and the offset.
\<close>

theorem codec_round_trip:
  assumes "0 \<le>s offset"
  shows "sint (get_item_size (make_item sz offset)) = sint sz \<and>
         sint (get_item_offset (make_item sz offset)) = sint offset"
proof
  show "sint (get_item_size (make_item sz offset)) = sint sz"
    using assms by (simp add: get_item_size_make_item_nonneg sint_scast_int)
  have "sint (get_item_offset (make_item sz offset)) = uint (get_item_offset (make_item sz offset))"
    by (simp only: sint_get_item_offset uint_get_item_offset)
  also have "\<dots> = uint offset"
    by (simp only: get_item_offset_make_item uint_ucast_int)
  also have "\<dots> = sint offset"
    using assms by (rule uint_nonneg_int)
  finally show "sint (get_item_offset (make_item sz offset)) = sint offset" .
qed

theorem codec_round_trip_witness:
  "0 \<le>s (20 :: c_int) \<and> sint (get_item_size (make_item (- 7) 20)) = - 7 \<and>
   sint (get_item_offset (make_item (- 7) 20)) = 20"
  using codec_round_trip [of 20 "- 7"] by (simp add: word_sle_eq)

text \<open>
  Claim C8: the decoders are sign-asymmetric on every packed value. \<open>get_item_size\<close> is
  the high 32 bits sign-extended (the floor of the signed value divided by \<open>2^32\<close>), so it
  is negative exactly when the packed value is; \<open>get_item_offset\<close> is the low 32 bits
  zero-extended, so it lies in \<open>[0, 2^32)\<close> and is never negative.
\<close>

theorem decoders_sign_asymmetric:
  "get_item_size item = scast (ucast (drop_bit 32 item) :: c_int) \<and>
   sint (get_item_size item) = sint item div 2 ^ 32 \<and>
   (sint (get_item_size item) < 0) = (sint item < 0) \<and>
   get_item_offset item = ucast (ucast item :: c_int) \<and>
   0 \<le> sint (get_item_offset item) \<and> sint (get_item_offset item) < 2 ^ 32"
proof (intro conjI)
  show "get_item_size item = scast (ucast (drop_bit 32 item) :: c_int)"
    by (rule get_item_size_scast)
  show "sint (get_item_size item) = sint item div 2 ^ 32"
    by (rule sint_get_item_size)
  have "(sint item div 2 ^ 32 < 0) = (sint item < 0)"
    by (rule pos_imp_zdiv_neg_iff) simp
  then show "(sint (get_item_size item) < 0) = (sint item < 0)"
    by (simp only: sint_get_item_size)
  show "get_item_offset item = ucast (ucast item :: c_int)"
    by (rule get_item_offset_ucast)
  show "0 \<le> sint (get_item_offset item)" "sint (get_item_offset item) < 2 ^ 32"
    by (rule sint_get_item_offset_bounds)+
qed

text \<open>
  Claim C9: for every size and every negative offset, the high 32 bits of the packed
  value are all ones, its size decodes as -1 and its offset as \<open>offset + 2^32\<close>.
\<close>

theorem negative_offset_clobbers_size:
  assumes "offset <s 0"
  shows "drop_bit 32 (make_item sz offset) = 0xffffffff \<and>
         sint (get_item_size (make_item sz offset)) = - 1 \<and>
         sint (get_item_offset (make_item sz offset)) = sint offset + 2 ^ 32"
proof (intro conjI)
  show "drop_bit 32 (make_item sz offset) = 0xffffffff"
    using assms by (simp add: high_half_make_item mask_eq_exp_minus_1)
  show "sint (get_item_size (make_item sz offset)) = - 1"
    using assms by (simp add: get_item_size_make_item_neg)
  have "sint (get_item_offset (make_item sz offset)) = uint (get_item_offset (make_item sz offset))"
    by (simp only: sint_get_item_offset uint_get_item_offset)
  also have "\<dots> = uint offset"
    by (simp only: get_item_offset_make_item uint_ucast_int)
  also have "\<dots> = sint offset + 2 ^ 32"
    using assms by (rule uint_neg_int)
  finally show "sint (get_item_offset (make_item sz offset)) = sint offset + 2 ^ 32" .
qed

theorem negative_offset_clobbers_size_witness:
  "(- 5 :: c_int) <s 0 \<and> drop_bit 32 (make_item 10 (- 5)) = 0xffffffff \<and>
   sint (get_item_size (make_item 10 (- 5))) = - 1 \<and>
   sint (get_item_offset (make_item 10 (- 5))) = 4294967291"
  using negative_offset_clobbers_size [of "- 5" 10] by (simp add: word_sless_alt)

section \<open>Window membership over the integers\<close>

lemma sint_of_int_ll: "ll_range k \<Longrightarrow> sint (word_of_int k :: c_long_long) = k"
  by (simp add: ll_range_def sint_sbintrunc' signed_take_bit_int_eq_self)

lemma sint_sum3_ll:
  "ll_range (sint a + sint b + sint c) \<Longrightarrow> sint (a + b + c :: c_long_long) = sint a + sint b + sint c"
proof -
  have "a + b + c = word_of_int (sint a + sint b + sint c)"
    by simp
  then show "ll_range (sint a + sint b + sint c) \<Longrightarrow> ?thesis"
    by (simp only: sint_of_int_ll)
qed

lemma sint_add_ll:
  "ll_range (sint a + sint b) \<Longrightarrow> sint (a + b :: c_long_long) = sint a + sint b"
proof -
  have "a + b = word_of_int (sint a + sint b)"
    by simp
  then show "ll_range (sint a + sint b) \<Longrightarrow> ?thesis"
    by (simp only: sint_of_int_ll)
qed

lemma sint_diff_ll:
  "ll_range (sint a - sint b) \<Longrightarrow> sint (a - b :: c_long_long) = sint a - sint b"
proof -
  have "a - b = word_of_int (sint a - sint b)"
    by simp
  then show "ll_range (sint a - sint b) \<Longrightarrow> ?thesis"
    by (simp only: sint_of_int_ll)
qed

lemma sint_item_end:
  "sint (get_item_offset item + get_item_size item) =
     sint (get_item_offset item) + sint (get_item_size item)"
proof (rule sint_add_ll)
  show "ll_range (sint (get_item_offset item) + sint (get_item_size item))"
    using sint_get_item_offset_bounds [of item] sint_get_item_size_bounds [of item]
    by (simp add: ll_range_def)
qed

lemma int_args_in_range:
  fixes a b c :: c_int
  shows "ll_range (sint a + sint b + sint c)" "ll_range (sint a - sint c)"
  using sint_ge [of a] sint_lt [of a] sint_ge [of b] sint_lt [of b] sint_ge [of c] sint_lt [of c]
  by (simp_all add: ll_range_def)

lemma is_item_in_window_int_args:
  fixes cursor_offset cursor_size window_size :: c_int
  shows "is_item_in_window item (scast cursor_offset) (scast cursor_size) (scast window_size) \<longleftrightarrow>
     sint (get_item_offset item) \<le> sint cursor_offset + sint cursor_size + sint window_size \<and>
     sint cursor_offset - sint window_size \<le> sint (get_item_offset item) + sint (get_item_size item)"
  (is "?lhs = ?rhs")
proof -
  let ?co = "scast cursor_offset :: c_long_long"
  let ?cs = "scast cursor_size :: c_long_long"
  let ?ws = "scast window_size :: c_long_long"
  have "ll_range (sint ?co + sint ?cs + sint ?ws)" "ll_range (sint ?co - sint ?ws)"
    using int_args_in_range(1) [of cursor_offset cursor_size window_size]
      int_args_in_range(2) [of cursor_offset window_size]
    by (simp_all only: sint_scast_int)
  then have "sint (?co + ?cs + ?ws) = sint cursor_offset + sint cursor_size + sint window_size"
    and "sint (?co - ?ws) = sint cursor_offset - sint window_size"
    by (simp_all only: sint_sum3_ll sint_diff_ll sint_scast_int)
  then show ?thesis
    by (simp only: is_item_in_window_def word_sle_eq sint_item_end)
qed

text \<open>
  Claim C2: for every packed item and all cursor arguments, \<open>is_item_in_window\<close> holds
  if and only if \<open>offset \<le> cursor_offset + cursor_size + window_size\<close> and
  \<open>offset + size \<ge> cursor_offset - window_size\<close>, over the integers, with the decoded
  offset and size and both comparisons inclusive. This holds for all \<open>long long\<close>
  arguments whose two window bounds are \<open>long long\<close> values again, that is, whenever the
  C arithmetic that computes the bounds does not overflow; and it holds without any
  condition for all arguments that are converted \<open>int\<close>s, as they are at the only call.
\<close>

theorem is_item_in_window_iff:
  fixes cursor_offset cursor_size window_size :: c_long_long
    and int_offset int_size int_window :: c_int
  shows "(ll_range (sint cursor_offset + sint cursor_size + sint window_size) \<and>
          ll_range (sint cursor_offset - sint window_size) \<longrightarrow>
          (is_item_in_window item cursor_offset cursor_size window_size \<longleftrightarrow>
             sint (get_item_offset item) \<le> sint cursor_offset + sint cursor_size + sint window_size \<and>
             sint (get_item_offset item) + sint (get_item_size item)
               \<ge> sint cursor_offset - sint window_size)) \<and>
         (is_item_in_window item (scast int_offset) (scast int_size) (scast int_window) \<longleftrightarrow>
             sint (get_item_offset item) \<le> sint int_offset + sint int_size + sint int_window \<and>
             sint (get_item_offset item) + sint (get_item_size item)
               \<ge> sint int_offset - sint int_window)"
proof (intro conjI impI)
  assume "ll_range (sint cursor_offset + sint cursor_size + sint window_size) \<and>
          ll_range (sint cursor_offset - sint window_size)"
  then show "is_item_in_window item cursor_offset cursor_size window_size \<longleftrightarrow>
             sint (get_item_offset item) \<le> sint cursor_offset + sint cursor_size + sint window_size \<and>
             sint (get_item_offset item) + sint (get_item_size item)
               \<ge> sint cursor_offset - sint window_size"
    by (simp only: is_item_in_window_def word_sle_eq sint_sum3_ll sint_diff_ll sint_item_end)
next
  show "is_item_in_window item (scast int_offset) (scast int_size) (scast int_window) \<longleftrightarrow>
             sint (get_item_offset item) \<le> sint int_offset + sint int_size + sint int_window \<and>
             sint (get_item_offset item) + sint (get_item_size item)
               \<ge> sint int_offset - sint int_window"
    by (rule is_item_in_window_int_args)
qed

text \<open>
  An item that starts exactly at the upper bound 20 of the window is in, one that starts
  at 21 is out; an item that ends exactly at the lower bound 10 is in, one that ends at 9
  is out.
\<close>

theorem is_item_in_window_iff_witness:
  "ll_range (sint (10 :: c_long_long) + sint (10 :: c_long_long) + sint (0 :: c_long_long)) \<and>
   ll_range (sint (10 :: c_long_long) - sint (0 :: c_long_long)) \<and>
   is_item_in_window (make_item 10 20) 10 10 0 \<and>
   \<not> is_item_in_window (make_item 10 21) 10 10 0 \<and>
   is_item_in_window (make_item 10 0) 10 10 0 \<and>
   \<not> is_item_in_window (make_item 9 0) 10 10 0"
  using is_item_in_window_iff [of 10 10 0 "make_item 10 20"]
    is_item_in_window_iff [of 10 10 0 "make_item 10 21"]
    is_item_in_window_iff [of 10 10 0 "make_item 10 0"]
    is_item_in_window_iff [of 10 10 0 "make_item 9 0"]
  by (simp add: ll_range_def make_item_def get_item_offset_def get_item_size_def)

section \<open>Termination of the scan\<close>

lemma scan_step_Continue:
  assumes "scan_step items items_count cursor_offset cursor_size window_size st = Continue st'"
  shows "sint (scan_i st) < sint items_count" "sint (scan_i st') = sint (scan_i st) + 1"
proof -
  from assms show less: "sint (scan_i st) < sint items_count"
    by (auto simp add: scan_step_def word_sless_alt split: if_splits option.splits)
  from assms have next_i: "scan_i st' = scan_i st + 1"
    by (auto simp add: scan_step_def split: if_splits option.splits)
  have "sint items_count < 2 ^ 31"
    using sint_lt [of items_count] by simp
  with less have "sint (scan_i st) + 1 < 2 ^ 31"
    by simp
  moreover have "- (2 ^ 31) \<le> sint (scan_i st) + 1"
    using sint_ge [of "scan_i st"] by simp
  ultimately have "sint (scan_i st + 1) = sint (scan_i st) + 1"
    by (simp add: sint_word_add signed_take_bit_int_eq_self)
  with next_i show "sint (scan_i st') = sint (scan_i st) + 1"
    by simp
qed

lemma scan_step_exit:
  "\<not> sint (scan_i st) < sint items_count \<Longrightarrow>
   scan_step items items_count cursor_offset cursor_size window_size st =
     Return (scan_result st) (scan_result_count st)"
  by (simp add: scan_step_def word_sless_alt)

lemma scan_run_enough:
  "nat (sint items_count - sint (scan_i st)) \<le> k \<Longrightarrow>
   scan_run k items items_count cursor_offset cursor_size window_size st =
     Some (scan_loop items items_count cursor_offset cursor_size window_size st)"
proof (induction k arbitrary: st)
  case 0
  then have "\<not> sint (scan_i st) < sint items_count"
    by simp
  then show ?case
    by (subst scan_loop.simps) (simp add: scan_step_exit del: scan_loop.simps)
next
  case (Suc k)
  show ?case
  proof (cases "scan_step items items_count cursor_offset cursor_size window_size st")
    case (Continue st')
    from scan_step_Continue [OF Continue] Suc.prems
    have "nat (sint items_count - sint (scan_i st')) \<le> k"
      by simp
    then have "scan_run k items items_count cursor_offset cursor_size window_size st' =
        Some (scan_loop items items_count cursor_offset cursor_size window_size st')"
      by (rule Suc.IH)
    with Continue show ?thesis
      by (subst scan_loop.simps) (simp del: scan_loop.simps)
  next
    case (Return r c)
    then show ?thesis
      by (subst scan_loop.simps) (simp del: scan_loop.simps)
  next
    case Fault
    then show ?thesis
      by (subst scan_loop.simps) (simp del: scan_loop.simps)
  qed
qed

text \<open>
  Claim C10: every exposed operation terminates on all inputs. \<open>make_item\<close>,
  \<open>get_top_padding\<close> and \<open>get_bottom_padding\<close> are straight-line code, and the loop of
  \<open>get_item_indices_in_window\<close> is a total function by its termination proof above.
  The loop goes round at most \<open>items_count\<close> times: a budget of \<open>items_count\<close> rounds
  (none when \<open>items_count \<le> 0\<close>) is enough to reach its result, for all inputs,
  faulting ones included; and when \<open>items_count \<le> 0\<close> it returns 0 and leaves the
  output buffer as it was.
\<close>

theorem scan_terminates_within_items_count:
  "scan_run (nat (sint items_count)) items items_count cursor_offset cursor_size window_size
      \<lparr>scan_i = 0, scan_result = result, scan_result_count = 0\<rparr> =
     Some (get_item_indices_in_window items result items_count cursor_offset cursor_size window_size)
   \<and> (items_count \<le>s 0 \<longrightarrow>
        get_item_indices_in_window items result items_count cursor_offset cursor_size window_size =
          Inr (result, 0))"
proof
  show "scan_run (nat (sint items_count)) items items_count cursor_offset cursor_size window_size
      \<lparr>scan_i = 0, scan_result = result, scan_result_count = 0\<rparr> =
     Some (get_item_indices_in_window items result items_count cursor_offset cursor_size window_size)"
    unfolding get_item_indices_in_window_def
    by (rule scan_run_enough) (simp del: scan_loop.simps)
  show "items_count \<le>s 0 \<longrightarrow>
        get_item_indices_in_window items result items_count cursor_offset cursor_size window_size =
          Inr (result, 0)"
    unfolding get_item_indices_in_window_def
    by (subst scan_loop.simps) (simp add: scan_step_exit word_sle_eq del: scan_loop.simps)
qed

theorem scan_terminates_within_items_count_witness:
  "scan_run 3 [make_item 10 0, make_item 10 10, make_item 10 20] 3 10 10 0
      \<lparr>scan_i = 0, scan_result = [7, 7, 7], scan_result_count = 0\<rparr> = Some (Inr ([0, 1, 2], 3))
   \<and> (- 4 :: c_int) \<le>s 0
   \<and> get_item_indices_in_window [make_item 10 0] [7] (- 4) 10 10 0 = Inr ([7], 0)"
proof -
  have a: "get_item_indices_in_window [make_item 10 0, make_item 10 10, make_item 10 20] [7, 7, 7] 3 10 10 0 =
     Inr ([0, 1, 2], 3)"
    by code_simp
  have b: "nat (sint (3 :: c_int)) = 3"
    by simp
  have c: "(- 4 :: c_int) \<le>s 0"
    by (simp add: word_sle_eq)
  show ?thesis
    using scan_terminates_within_items_count
      [of 3 "[make_item 10 0, make_item 10 10, make_item 10 20]" 10 10 0 "[7, 7, 7]"]
      scan_terminates_within_items_count [of "- 4" "[make_item 10 0]" 10 10 0 "[7]"]
    by (simp only: a b c)
qed

section \<open>The window query\<close>

lemma sint_of_nat_int: "k < 2 ^ 31 \<Longrightarrow> sint (word_of_nat k :: c_int) = int k"
proof -
  assume "k < 2 ^ 31"
  then have "int k < 2 ^ 31"
    by (metis of_nat_less_iff of_nat_numeral of_nat_power)
  moreover have "- (2 ^ 31) \<le> int k"
    by (rule order_trans [of _ 0]) simp_all
  ultimately have "signed_take_bit 31 (int k) = int k"
    by (rule signed_take_bit_int_eq_self [rotated])
  moreover have "sint (word_of_nat k :: c_int) = signed_take_bit 31 (int k)"
    using sint_sbintrunc' [of "int k", where 'a = 32] by simp
  ultimately show ?thesis
    by simp
qed

lemma sint_of_nat_ll: "k < 2 ^ 31 \<Longrightarrow> sint (word_of_nat k :: c_long_long) = int k"
proof -
  assume "k < 2 ^ 31"
  then have "int k < 2 ^ 31"
    by (metis of_nat_less_iff of_nat_numeral of_nat_power)
  then have "int k < 2 ^ 63"
    by (rule less_trans) simp
  moreover have "- (2 ^ 63) \<le> int k"
    by (rule order_trans [of _ 0]) simp_all
  ultimately have "signed_take_bit 63 (int k) = int k"
    by (rule signed_take_bit_int_eq_self [rotated])
  moreover have "sint (word_of_nat k :: c_long_long) = signed_take_bit 63 (int k)"
    using sint_sbintrunc' [of "int k", where 'a = 64] by simp
  ultimately show ?thesis
    by simp
qed

lemma scast_of_nat_int:
  "k < 2 ^ 31 \<Longrightarrow> (scast (word_of_nat k :: c_int) :: c_long_long) = word_of_nat k"
proof -
  assume k: "k < 2 ^ 31"
  have "(scast (word_of_nat k :: c_int) :: c_long_long) = word_of_int (sint (word_of_nat k :: c_int))"
    by simp
  also have "\<dots> = word_of_int (int k)"
    using k by (simp only: sint_of_nat_int)
  finally show ?thesis
    by simp
qed

lemma array_read_of_nat:
  "k < length xs \<Longrightarrow> k < 2 ^ 31 \<Longrightarrow> array_read xs (word_of_nat k) = Some (xs ! k)"
  by (simp add: array_read_def word_sle_eq sint_of_nat_int)

lemma array_write_of_nat:
  "k < length xs \<Longrightarrow> k < 2 ^ 31 \<Longrightarrow> array_write xs (word_of_nat k) v = Some (xs[k := v])"
  by (simp add: array_write_def word_sle_eq sint_of_nat_int)

text \<open>
  The loop invariant, started anywhere: with \<open>i = k\<close> and \<open>result_count = c \<le> k\<close>, the
  loop keeps the first \<open>c\<close> entries of the output buffer, appends the matching indices
  from \<open>k\<close> on, and leaves the rest of the buffer alone.
\<close>

lemma scan_loop_from:
  fixes cursor_offset cursor_size window_size :: c_int
  defines "P \<equiv> \<lambda>items j. is_item_in_window (items ! j)
                   (scast cursor_offset) (scast cursor_size) (scast window_size)"
  assumes "k \<le> n" "n \<le> length items" "n < 2 ^ 31" "c \<le> k" "n \<le> length res"
  shows "scan_loop items (word_of_nat n) cursor_offset cursor_size window_size
           \<lparr>scan_i = word_of_nat k, scan_result = res, scan_result_count = word_of_nat c\<rparr> =
         Inr (take c res @ map word_of_nat (filter (P items) [k..<n]) @
                drop (c + length (filter (P items) [k..<n])) res,
              word_of_nat (c + length (filter (P items) [k..<n])))"
  using assms(2-)
proof (induction "n - k" arbitrary: k c res)
  case 0
  then have "k = n"
    by simp
  then have "\<not> sint (word_of_nat k :: c_int) < sint (word_of_nat n :: c_int)"
    by simp
  then show ?case
    using \<open>k = n\<close>
    by (subst scan_loop.simps) (simp add: scan_step_def word_sless_alt del: scan_loop.simps)
next
  case (Suc d)
  then have kn: "k < n" and k31: "k < 2 ^ 31" and c31: "c < 2 ^ 31"
    and klen: "k < length items" and clen: "c < length res"
    by simp_all
  have less: "(word_of_nat k :: c_int) <s word_of_nat n"
    using kn k31 \<open>n < 2 ^ 31\<close> by (simp add: word_sless_alt sint_of_nat_int)
  have upt: "[k..<n] = k # [Suc k..<n]"
    using kn by (rule upt_conv_Cons)
  have d: "d = n - Suc k"
    using Suc.hyps(2) by simp
  show ?case
  proof (cases "P items k")
    case True
    let ?res = "res[c := word_of_nat k]"
    have step: "scan_step items (word_of_nat n) cursor_offset cursor_size window_size
           \<lparr>scan_i = word_of_nat k, scan_result = res, scan_result_count = word_of_nat c\<rparr> =
         Continue \<lparr>scan_i = word_of_nat (Suc k), scan_result = ?res,
                   scan_result_count = word_of_nat (Suc c)\<rparr>"
      using True less klen k31 clen c31
      by (simp add: scan_step_def P_def array_read_of_nat array_write_of_nat scast_of_nat_int)
    have IH: "scan_loop items (word_of_nat n) cursor_offset cursor_size window_size
           \<lparr>scan_i = word_of_nat (Suc k), scan_result = ?res, scan_result_count = word_of_nat (Suc c)\<rparr> =
         Inr (take (Suc c) ?res @ map word_of_nat (filter (P items) [Suc k..<n]) @
                drop (Suc c + length (filter (P items) [Suc k..<n])) ?res,
              word_of_nat (Suc c + length (filter (P items) [Suc k..<n])))"
      using Suc.prems kn by (intro Suc.hyps(1) d) simp_all
    have "take (Suc c) ?res = take c res @ [word_of_nat k]"
      using clen by (simp add: take_Suc_conv_app_nth)
    with IH step True show ?thesis
      by (subst scan_loop.simps) (simp add: upt del: scan_loop.simps)
  next
    case False
    have step: "scan_step items (word_of_nat n) cursor_offset cursor_size window_size
           \<lparr>scan_i = word_of_nat k, scan_result = res, scan_result_count = word_of_nat c\<rparr> =
         Continue \<lparr>scan_i = word_of_nat (Suc k), scan_result = res,
                   scan_result_count = word_of_nat c\<rparr>"
      using False less klen k31
      by (simp add: scan_step_def P_def array_read_of_nat)
    have IH: "scan_loop items (word_of_nat n) cursor_offset cursor_size window_size
           \<lparr>scan_i = word_of_nat (Suc k), scan_result = res, scan_result_count = word_of_nat c\<rparr> =
         Inr (take c res @ map word_of_nat (filter (P items) [Suc k..<n]) @
                drop (c + length (filter (P items) [Suc k..<n])) res,
              word_of_nat (c + length (filter (P items) [Suc k..<n])))"
      using Suc.prems kn by (intro Suc.hyps(1) d) simp_all
    with step False show ?thesis
      by (subst scan_loop.simps) (simp add: upt del: scan_loop.simps)
  qed
qed

lemma get_item_indices_in_window_eq:
  assumes "n \<le> length items" "n \<le> length result" "n < 2 ^ 31"
  shows "get_item_indices_in_window items result (word_of_nat n) cursor_offset cursor_size window_size =
           Inr (map word_of_nat (window_indices items n cursor_offset cursor_size window_size) @
                  drop (length (window_indices items n cursor_offset cursor_size window_size)) result,
                word_of_nat (length (window_indices items n cursor_offset cursor_size window_size)))"
  using scan_loop_from [of 0 n items 0 result cursor_offset cursor_size window_size] assms
  by (simp add: get_item_indices_in_window_def window_indices_def)

lemma length_window_indices:
  "length (window_indices items n cursor_offset cursor_size window_size) \<le> n"
  using length_filter_le [of _ "[0..<n]"] by (simp add: window_indices_def)

lemma set_window_indices:
  "set (window_indices items n cursor_offset cursor_size window_size) =
     {k. k < n \<and> is_item_in_window (items ! k)
                     (scast cursor_offset) (scast cursor_size) (scast window_size)}"
  by (auto simp add: window_indices_def)

lemma sorted_window_indices:
  "sorted_wrt (<) (window_indices items n cursor_offset cursor_size window_size)"
  unfolding window_indices_def by (rule sorted_wrt_filter) simp

lemma returned_indices_eq:
  assumes "n < 2 ^ 31" "length W \<le> n" "\<forall>k \<in> set W. k < n"
  shows "returned_indices (map word_of_nat W @ rest, word_of_nat (length W)) = map int W"
proof -
  have "length W < 2 ^ 31"
    using assms(1,2) by simp
  then have "nat (sint (word_of_nat (length W) :: c_int)) = length W"
    by (simp add: sint_of_nat_int)
  moreover have "map sint (map word_of_nat W :: c_long_long list) = map int W"
    using assms(1,3) by (auto simp add: sint_of_nat_ll)
  ultimately show ?thesis
    by (simp add: returned_indices_def)
qed

text \<open>
  Claim C1: for an items array of \<open>n\<close> items (\<open>n\<close> an \<open>int\<close> that is not negative) and an
  output buffer of at least \<open>n\<close> entries, and for all cursor arguments,
  \<open>get_item_indices_in_window\<close> returns the number of items that pass
  \<open>is_item_in_window\<close> and fills \<open>result[0..count)\<close> with exactly their indices in
  ascending order, leaving the rest of the buffer as it was; if no item passes, it
  returns 0.
\<close>

theorem get_item_indices_in_window_correct:
  fixes cursor_offset cursor_size window_size :: c_int
  defines "W \<equiv> \<lambda>items n. window_indices items n cursor_offset cursor_size window_size"
  assumes "n \<le> length items" "n \<le> length result" "n < 2 ^ 31"
  shows "get_item_indices_in_window items result (word_of_nat n) cursor_offset cursor_size window_size =
           Inr (map word_of_nat (W items n) @ drop (length (W items n)) result,
                word_of_nat (length (W items n))) \<and>
         returned_indices (map word_of_nat (W items n) @ drop (length (W items n)) result,
                           word_of_nat (length (W items n))) = map int (W items n) \<and>
         sorted_wrt (<) (W items n) \<and>
         set (W items n) = {k. k < n \<and> is_item_in_window (items ! k)
                     (scast cursor_offset) (scast cursor_size) (scast window_size)} \<and>
         (W items n = [] \<longrightarrow>
            get_item_indices_in_window items result (word_of_nat n) cursor_offset cursor_size window_size =
              Inr (result, 0))"
proof (intro conjI impI)
  show eq: "get_item_indices_in_window items result (word_of_nat n) cursor_offset cursor_size window_size =
           Inr (map word_of_nat (W items n) @ drop (length (W items n)) result,
                word_of_nat (length (W items n)))"
    unfolding W_def using assms(2-) by (rule get_item_indices_in_window_eq)
  show "returned_indices (map word_of_nat (W items n) @ drop (length (W items n)) result,
                           word_of_nat (length (W items n))) = map int (W items n)"
    unfolding W_def using \<open>n < 2 ^ 31\<close>
    by (rule returned_indices_eq) (simp_all add: length_window_indices set_window_indices)
  show "sorted_wrt (<) (W items n)"
    unfolding W_def by (rule sorted_window_indices)
  show "set (W items n) = {k. k < n \<and> is_item_in_window (items ! k)
                     (scast cursor_offset) (scast cursor_size) (scast window_size)}"
    unfolding W_def by (rule set_window_indices)
  assume "W items n = []"
  with eq show "get_item_indices_in_window items result (word_of_nat n) cursor_offset cursor_size window_size =
              Inr (result, 0)"
    by simp
qed

theorem get_item_indices_in_window_correct_witness:
  "(3 :: nat) \<le> length [make_item 10 0, make_item 10 10, make_item 10 20] \<and>
   (3 :: nat) \<le> length [7, 7, 7 :: c_long_long] \<and> (3 :: nat) < 2 ^ 31 \<and>
   get_item_indices_in_window [make_item 10 0, make_item 10 10, make_item 10 20] [7, 7, 7] 3 15 5 0 =
     Inr ([1, 2, 7], 2) \<and>
   returned_indices ([1, 2, 7], 2) = [1, 2] \<and>
   window_indices [make_item 10 0, make_item 10 10, make_item 10 20] 3 50 5 0 = [] \<and>
   get_item_indices_in_window [make_item 10 0, make_item 10 10, make_item 10 20] [7, 7, 7] 3 50 5 0 =
     Inr ([7, 7, 7], 0)"
proof -
  have w: "window_indices [make_item 10 0, make_item 10 10, make_item 10 20] 3 15 5 0 = [1, 2]"
    by code_simp
  have e: "window_indices [make_item 10 0, make_item 10 10, make_item 10 20] 3 50 5 0 = []"
    by code_simp
  have pre: "(3 :: nat) \<le> length [make_item 10 0, make_item 10 10, make_item 10 20]"
    "(3 :: nat) \<le> length [7, 7, 7 :: c_long_long]" "(3 :: nat) < 2 ^ 31"
    by simp_all
  show ?thesis
    using get_item_indices_in_window_correct [OF pre, of 15 5 0]
      get_item_indices_in_window_correct [OF pre, of 50 5 0]
    by (simp add: w e)
qed

section \<open>Monotonic layouts\<close>

lemma sorted_map_upt_mono:
  fixes f :: "nat \<Rightarrow> int"
  assumes "sorted (map f [0..<n])" "a \<le> b" "b < n"
  shows "f a \<le> f b"
  using sorted_nth_mono [OF assms(1), of a b] assms(2,3) by simp

lemma mem_int_image: "v \<in> int ` S \<longleftrightarrow> 0 \<le> v \<and> nat v \<in> S"
proof
  assume "v \<in> int ` S"
  then show "0 \<le> v \<and> nat v \<in> S"
    by auto
next
  assume "0 \<le> v \<and> nat v \<in> S"
  then have "v = int (nat v)" "nat v \<in> S"
    by simp_all
  then show "v \<in> int ` S"
    by (rule image_eqI)
qed

text \<open>
  Claim C4, as stated, asks only for non-decreasing offsets. Three items with offsets
  0, 10, 20 and sizes 100, 1, 100 are such an array; for the window \<open>[50, 60]\<close> the query
  returns the indices 0 and 2 but not 1, whose item ends at 11.
\<close>

theorem offsets_alone_counterexample:
  "offsets_nondecreasing [make_item 100 0, make_item 1 10, make_item 100 20] 3 \<and>
   get_item_indices_in_window [make_item 100 0, make_item 1 10, make_item 100 20] [0, 0, 0] 3 50 10 0 =
     Inr ([0, 2, 0], 2) \<and>
   returned_indices ([0, 2, 0], 2) = [0, 2] \<and>
   0 \<in> set (returned_indices ([0, 2, 0], 2)) \<and>
   2 \<in> set (returned_indices ([0, 2, 0], 2)) \<and>
   1 \<notin> set (returned_indices ([0, 2, 0], 2))"
  by code_simp

text \<open>
  Claim C4, amended: for every items array whose decoded offsets and whose decoded ends
  \<open>offset + size\<close> are both non-decreasing in the index, the returned indices are a
  contiguous run: if \<open>i\<close> and \<open>k\<close> are returned and \<open>i \<le> j \<le> k\<close>, then \<open>j\<close> is
  returned.
\<close>

theorem monotonic_layout_contiguous_run:
  assumes "n \<le> length items" "n \<le> length result" "n < 2 ^ 31"
    and "offsets_nondecreasing items n" "ends_nondecreasing items n"
    and "get_item_indices_in_window items result (word_of_nat n) cursor_offset cursor_size window_size =
           Inr out"
    and "i \<in> set (returned_indices out)" "k \<in> set (returned_indices out)"
    and "i \<le> j" "j \<le> k"
  shows "j \<in> set (returned_indices out)"
proof -
  let ?W = "window_indices items n cursor_offset cursor_size window_size"
  let ?off = "\<lambda>k. sint (get_item_offset (items ! k))"
  let ?end = "\<lambda>k. sint (get_item_offset (items ! k)) + sint (get_item_size (items ! k))"
  let ?hi = "sint cursor_offset + sint cursor_size + sint window_size"
  let ?lo = "sint cursor_offset - sint window_size"
  have out: "out = (map word_of_nat ?W @ drop (length ?W) result, word_of_nat (length ?W))"
    using get_item_indices_in_window_eq [OF assms(1-3), of cursor_offset cursor_size window_size]
      assms(6) by simp
  have ret: "returned_indices out = map int ?W"
    unfolding out using \<open>n < 2 ^ 31\<close>
    by (rule returned_indices_eq) (simp_all add: length_window_indices set_window_indices)
  have mem: "v \<in> set (returned_indices out) \<longleftrightarrow>
      0 \<le> v \<and> nat v < n \<and> ?off (nat v) \<le> ?hi \<and> ?lo \<le> ?end (nat v)" for v
    unfolding ret by (simp add: mem_int_image set_window_indices is_item_in_window_int_args)
  from assms(7) have i: "0 \<le> i" "?lo \<le> ?end (nat i)"
    by (simp_all add: mem)
  from assms(8) have k: "nat k < n" "?off (nat k) \<le> ?hi"
    by (simp_all add: mem)
  from i(1) assms(9,10) have order: "0 \<le> j" "nat i \<le> nat j" "nat j \<le> nat k"
    by simp_all
  with k(1) have jn: "nat j < n"
    by simp
  have "?off (nat j) \<le> ?off (nat k)"
    using assms(4) order(3) k(1) unfolding offsets_nondecreasing_def
    by (rule sorted_map_upt_mono)
  moreover have "?end (nat i) \<le> ?end (nat j)"
    using assms(5) order(2) jn unfolding ends_nondecreasing_def
    by (rule sorted_map_upt_mono)
  ultimately show ?thesis
    using i(2) k(2) order(1) jn by (simp add: mem)
qed

theorem monotonic_layout_contiguous_run_witness:
  "(3 :: nat) \<le> length [make_item 10 0, make_item 10 10, make_item 10 20] \<and>
   (3 :: nat) \<le> length [7, 7, 7 :: c_long_long] \<and> (3 :: nat) < 2 ^ 31 \<and>
   offsets_nondecreasing [make_item 10 0, make_item 10 10, make_item 10 20] 3 \<and>
   ends_nondecreasing [make_item 10 0, make_item 10 10, make_item 10 20] 3 \<and>
   get_item_indices_in_window [make_item 10 0, make_item 10 10, make_item 10 20] [7, 7, 7] 3 10 10 0 =
     Inr ([0, 1, 2], 3) \<and>
   0 \<in> set (returned_indices ([0, 1, 2], 3)) \<and>
   2 \<in> set (returned_indices ([0, 1, 2], 3)) \<and>
   (0 :: int) \<le> 1 \<and> (1 :: int) \<le> 2 \<and>
   1 \<in> set (returned_indices ([0, 1, 2], 3))"
proof -
  have pre: "(3 :: nat) \<le> length [make_item 10 0, make_item 10 10, make_item 10 20]"
    "(3 :: nat) \<le> length [7, 7, 7 :: c_long_long]" "(3 :: nat) < 2 ^ 31"
    by simp_all
  have mono: "offsets_nondecreasing [make_item 10 0, make_item 10 10, make_item 10 20] 3"
    "ends_nondecreasing [make_item 10 0, make_item 10 10, make_item 10 20] 3"
    by code_simp+
  have run: "get_item_indices_in_window [make_item 10 0, make_item 10 10, make_item 10 20] [7, 7, 7]
      (word_of_nat 3) 10 10 0 = Inr ([0, 1, 2], 3)"
    by code_simp
  have ends: "0 \<in> set (returned_indices ([0, 1, 2], 3))" "2 \<in> set (returned_indices ([0, 1, 2], 3))"
    by code_simp+
  have between: "(0 :: int) \<le> 1" "(1 :: int) \<le> 2"
    by simp_all
  have run': "get_item_indices_in_window [make_item 10 0, make_item 10 10, make_item 10 20] [7, 7, 7]
      3 10 10 0 = Inr ([0, 1, 2], 3)"
    using run by simp
  from monotonic_layout_contiguous_run [OF pre mono run ends between] pre mono run' ends between
  show ?thesis
    by (intro conjI)
qed

section \<open>The padding results\<close>

lemma sint_by_uint_int:
  "sint (w :: c_int) = (if uint w < 2 ^ 31 then uint w else uint w - 2 ^ 32)"
proof (cases "0 \<le>s w")
  case True
  then have "uint w = sint w"
    by (rule uint_nonneg_int)
  moreover have "sint w < 2 ^ 31"
    using sint_lt [of w] by simp
  ultimately show ?thesis
    by simp
next
  case False
  then have "w <s 0"
    by (simp add: word_sle_eq word_sless_alt)
  then have "uint w = sint w + 2 ^ 32"
    by (rule uint_neg_int)
  moreover have "- (2 ^ 31) \<le> sint w"
    using sint_ge [of w] by simp
  ultimately show ?thesis
    by simp
qed

lemma ucast_get_item_offset: "(ucast (get_item_offset item) :: c_int) = ucast item"
  by (rule bit_word_eqI) (auto simp add: bit_get_item_offset bit_simps)

lemma uint_ucast_get_item_offset:
  "uint (ucast (get_item_offset item) :: c_int) = sint (get_item_offset item)"
proof -
  have "uint (ucast item :: c_int) = take_bit 32 (uint item)"
    by (simp add: unsigned_ucast_eq)
  also have "\<dots> = uint item mod 2 ^ 32"
    by (simp only: take_bit_eq_mod)
  finally show ?thesis
    by (simp only: ucast_get_item_offset sint_get_item_offset)
qed

lemma ucast_of_int_ll: "(ucast (word_of_int k :: c_long_long) :: c_int) = word_of_int k"
  by (rule bit_word_eqI) (auto simp add: bit_simps)

lemma sint_of_int_int: "int_range k \<Longrightarrow> sint (word_of_int k :: c_int) = k"
  by (simp add: int_range_def sint_sbintrunc' signed_take_bit_int_eq_self)

lemma sint_pred_int: "1 \<le>s (w :: c_int) \<Longrightarrow> sint (w - 1) = sint w - 1"
proof -
  assume "1 \<le>s w"
  then have "1 \<le> sint w"
    by (simp add: word_sle_eq)
  moreover have "sint w < 2 ^ 31"
    using sint_lt [of w] by simp
  ultimately have "int_range (sint w - 1)"
    by (simp add: int_range_def)
  moreover have "w - 1 = word_of_int (sint w - 1)"
    by simp
  ultimately show ?thesis
    by (simp only: sint_of_int_int)
qed

text \<open>
  Claim C7, as stated, says that \<open>get_top_padding\<close> equals the decoded offset. The
  decoded offset ranges over \<open>[0, 2^32)\<close> and the result is an \<open>int\<close>: for the item
  \<open>make_item 3 (- 1)\<close>, whose offset decodes as 4294967295, the result is -1.
\<close>

theorem get_top_padding_counterexample:
  "get_top_padding [make_item 3 (- 1)] 0 = Inr (- 1) \<and>
   map_sum id sint (get_top_padding [make_item 3 (- 1)] 0) = Inr (- 1) \<and>
   sint (get_item_offset ([make_item 3 (- 1)] ! 0)) = 4294967295"
  by code_simp

text \<open>
  Claim C7, amended: for every items array and every valid index into it,
  \<open>get_top_padding\<close> returns the decoded offset of the indexed item converted to \<open>int\<close>.
  Its 32 bits read as unsigned are the decoded offset; as the signed number it is, it
  equals the decoded offset when that is below \<open>2^31\<close> and is \<open>2^32\<close> less otherwise.
\<close>

theorem get_top_padding_value:
  assumes "0 \<le>s first_item_index" "nat (sint first_item_index) < length items"
  defines "offset \<equiv> \<lambda>items idx. sint (get_item_offset (items ! nat (sint idx)))"
  shows "map_sum id uint (get_top_padding items first_item_index) =
           Inr (offset items first_item_index) \<and>
         map_sum id sint (get_top_padding items first_item_index) =
           Inr (if offset items first_item_index < 2 ^ 31 then offset items first_item_index
                else offset items first_item_index - 2 ^ 32)"
  using assms(1,2) unfolding offset_def
  by (simp add: get_top_padding_def array_read_def sint_by_uint_int uint_ucast_get_item_offset)

theorem get_top_padding_value_witness:
  "0 \<le>s (1 :: c_int) \<and> nat (sint (1 :: c_int)) < length [make_item 10 0, make_item 10 10, make_item 10 20] \<and>
   map_sum id uint (get_top_padding [make_item 10 0, make_item 10 10, make_item 10 20] 1) = Inr 10 \<and>
   map_sum id sint (get_top_padding [make_item 10 0, make_item 10 10, make_item 10 20] 1) = Inr 10 \<and>
   sint (get_item_offset ([make_item 10 0, make_item 10 10, make_item 10 20] ! nat (sint (1 :: c_int)))) = 10"
proof -
  have pre: "0 \<le>s (1 :: c_int)"
    "nat (sint (1 :: c_int)) < length [make_item 10 0, make_item 10 10, make_item 10 20]"
    by (simp_all add: word_sle_eq)
  have v: "sint (get_item_offset ([make_item 10 0, make_item 10 10, make_item 10 20] ! nat (sint (1 :: c_int)))) = 10"
    by (simp add: make_item_def get_item_offset_def)
  show ?thesis
    using get_top_padding_value [OF pre] pre v by simp
qed

text \<open>
  Claim C6, as stated, says that \<open>get_bottom_padding\<close> equals the difference of the two
  ends. For the two items (size 0, offset 0) and (size 2147483647, offset 2147483647),
  with the first one the last visible, the difference is 4294967294 and the result is
  -2.
\<close>

theorem get_bottom_padding_counterexample:
  "map_sum id sint (get_bottom_padding [make_item 0 0, make_item 2147483647 2147483647] 2 0) = Inr (- 2) \<and>
   bottom_padding_spec [make_item 0 0, make_item 2147483647 2147483647] 2 0 = 4294967294"
  by code_simp

text \<open>
  Claim C6, amended: for every items array, every \<open>total_items \<ge> 1\<close> within the array and
  every valid \<open>last_item_index \<le> total_items - 1\<close>, \<open>get_bottom_padding\<close> returns the
  difference \<open>(offset(last) + size(last)) - (offset(visible) + size(visible))\<close> of the
  decoded fields converted to \<open>int\<close> (its low 32 bits); the result equals the difference
  whenever the difference is an \<open>int\<close> value.
\<close>

theorem get_bottom_padding_value:
  assumes "1 \<le>s total_items" "nat (sint total_items) \<le> length items"
    and "0 \<le>s last_item_index" "last_item_index <s total_items"
  defines "D \<equiv> \<lambda>items total_items last_item_index.
     bottom_padding_spec items (nat (sint total_items)) (nat (sint last_item_index))"
  shows "get_bottom_padding items total_items last_item_index =
           Inr (word_of_int (D items total_items last_item_index)) \<and>
         (int_range (D items total_items last_item_index) \<longrightarrow>
            map_sum id sint (get_bottom_padding items total_items last_item_index) =
              Inr (D items total_items last_item_index))"
proof -
  let ?last = "items ! (nat (sint total_items) - 1)"
  let ?vis = "items ! nat (sint last_item_index)"
  have t: "1 \<le> sint total_items" and l: "0 \<le> sint last_item_index"
    and lt: "sint last_item_index < sint total_items"
    using assms(1,3,4) by (simp_all add: word_sle_eq word_sless_alt)
  have pred: "sint (total_items - 1) = sint total_items - 1"
    using assms(1) by (rule sint_pred_int)
  have "nat (sint total_items - 1) = nat (sint total_items) - 1"
    by simp
  with t assms(2) pred have r1: "array_read items (total_items - 1) = Some ?last"
    by (simp add: array_read_def word_sle_eq)
  from l lt assms(2) have r2: "array_read items last_item_index = Some ?vis"
    by (simp add: array_read_def word_sle_eq)
  have "get_item_offset ?last + get_item_size ?last - get_item_offset ?vis - get_item_size ?vis =
      word_of_int (D items total_items last_item_index)"
    by (simp add: D_def bottom_padding_spec_def)
  then have eq: "get_bottom_padding items total_items last_item_index =
           Inr (word_of_int (D items total_items last_item_index))"
    by (simp add: get_bottom_padding_def r1 r2 ucast_of_int_ll)
  then show ?thesis
    by (simp add: sint_of_int_int)
qed

theorem get_bottom_padding_value_witness:
  "1 \<le>s (3 :: c_int) \<and> nat (sint (3 :: c_int)) \<le> length [make_item 10 0, make_item 10 10, make_item 10 20] \<and>
   0 \<le>s (1 :: c_int) \<and> (1 :: c_int) <s 3 \<and>
   bottom_padding_spec [make_item 10 0, make_item 10 10, make_item 10 20] 3 1 = 10 \<and>
   int_range 10 \<and>
   get_bottom_padding [make_item 10 0, make_item 10 10, make_item 10 20] 3 1 = Inr 10 \<and>
   map_sum id sint (get_bottom_padding [make_item 10 0, make_item 10 10, make_item 10 20] 3 1) = Inr 10"
proof -
  have pre: "1 \<le>s (3 :: c_int)"
    "nat (sint (3 :: c_int)) \<le> length [make_item 10 0, make_item 10 10, make_item 10 20]"
    "0 \<le>s (1 :: c_int)" "(1 :: c_int) <s 3"
    by (simp_all add: word_sle_eq word_sless_alt)
  have d: "bottom_padding_spec [make_item 10 0, make_item 10 10, make_item 10 20] 3 1 = 10"
    by code_simp
  have d': "bottom_padding_spec [make_item 10 0, make_item 10 10, make_item 10 20]
      (nat (sint (3 :: c_int))) (nat (sint (1 :: c_int))) = 10"
    using d by simp
  have r: "int_range 10"
    by (simp add: int_range_def)
  have "get_bottom_padding [make_item 10 0, make_item 10 10, make_item 10 20] 3 1 =
      Inr (word_of_int 10) \<and>
    (int_range 10 \<longrightarrow>
       map_sum id sint (get_bottom_padding [make_item 10 0, make_item 10 10, make_item 10 20] 3 1) =
         Inr 10)"
    by (rule get_bottom_padding_value [OF pre, unfolded d'])
  with pre d r show ?thesis
    by simp
qed

end
